theory Spec2Isabelle
  imports Main
begin

section \<open>Buffers and Python exceptions\<close>

text \<open>
  The notebook \<^verbatim>\<open>Day1_session4_topic1_usecases.ipynb\<close> works on Python byte buffers
  (\<^verbatim>\<open>bytes\<close>, \<^verbatim>\<open>bytearray\<close>, \<^verbatim>\<open>memoryview\<close>). A byte is a \<^typ>\<open>char\<close> (eight bits), so
  the literal \<^verbatim>\<open>b"HEAD"\<close> is \<^term>\<open>''HEAD''\<close>, and \<^term>\<open>of_char c :: int\<close> is the
  integer 0..255 that Python shows for the byte.

  Python integers are unbounded: cursors and offsets that the code computes with
  are \<^typ>\<open>int\<close>. An exception is a value of \<open>py_error\<close>; a call that can raise returns
  \<open>py_error + 'a\<close>, with \<open>Inl\<close> the exception.
\<close>

type_synonym byte = char

datatype py_error = IndexError | TypeError | ValueError | StructError

section \<open>Case 1: \<^verbatim>\<open>reverse_inplace\<close>\<close>

text \<open>
  \<^verbatim>\<open>
  def reverse_inplace(data):
      mv = memoryview(data)
      left, right = 0, len(mv) - 1
      while left < right:
          mv[left], mv[right] = mv[right], mv[left]
          left += 1
          right -= 1
      mv.release()
  \<close>
  \<open>data\<close> is a \<^verbatim>\<open>bytearray\<close>; the memoryview \<open>mv\<close> aliases it, so every write through
  \<open>mv\<close> is a write to \<open>data\<close>. The model passes the content of the buffer through the
  loop and returns it: the value returned is the content of \<open>data\<close> after the call.

  Indexing a one-dimensional memoryview with an integer: a negative index counts from
  the end, and an index outside the buffer raises \<^verbatim>\<open>IndexError\<close>.
\<close>

definition norm_index :: "nat \<Rightarrow> int \<Rightarrow> py_error + nat" where
  "norm_index n i =
     (let j = (if i < 0 then i + int n else i)
      in if 0 \<le> j \<and> j < int n then Inr (nat j) else Inl IndexError)"

definition mv_getitem :: "byte list \<Rightarrow> int \<Rightarrow> py_error + byte" where
  "mv_getitem mv i =
     (case norm_index (length mv) i of Inl e \<Rightarrow> Inl e | Inr j \<Rightarrow> Inr (mv ! j))"

definition mv_setitem :: "byte list \<Rightarrow> int \<Rightarrow> byte \<Rightarrow> py_error + byte list" where
  "mv_setitem mv i v =
     (case norm_index (length mv) i of Inl e \<Rightarrow> Inl e | Inr j \<Rightarrow> Inr (mv[j := v]))"

text \<open>
  The loop body's tuple assignment \<^verbatim>\<open>mv[left], mv[right] = mv[right], mv[left]\<close>: the
  right-hand side is evaluated first (read at \<open>right\<close>, then at \<open>left\<close>), then the two
  stores run left to right.
\<close>

definition swap_items :: "byte list \<Rightarrow> int \<Rightarrow> int \<Rightarrow> py_error + byte list" where
  "swap_items mv left right =
     (case mv_getitem mv right of Inl e \<Rightarrow> Inl e | Inr a \<Rightarrow>
     (case mv_getitem mv left of Inl e \<Rightarrow> Inl e | Inr b \<Rightarrow>
     (case mv_setitem mv left a of Inl e \<Rightarrow> Inl e | Inr mv1 \<Rightarrow>
      mv_setitem mv1 right b)))"

text \<open>
  The \<^verbatim>\<open>while\<close> loop. Nothing in its shape says that it ends, so it is a partial
  function: \<open>None\<close> is a loop that runs forever, \<open>Some (Inl e)\<close> an exception that leaves
  the loop, \<open>Some (Inr mv)\<close> the buffer at the normal exit.
\<close>

partial_function (option) reverse_loop ::
  "byte list \<Rightarrow> int \<Rightarrow> int \<Rightarrow> (py_error + byte list) option" where
  "reverse_loop mv left right =
     (if left < right then
        (case swap_items mv left right of
           Inl e \<Rightarrow> Some (Inl e)
         | Inr mv' \<Rightarrow> reverse_loop mv' (left + 1) (right - 1))
      else Some (Inr mv))"

declare reverse_loop.simps [code]

definition reverse_inplace :: "byte list \<Rightarrow> (py_error + byte list) option" where
  "reverse_inplace data = reverse_loop data 0 (int (length data) - 1)"

section \<open>Case 2: \<^verbatim>\<open>struct.unpack_from\<close>\<close>

text \<open>
  \<^verbatim>\<open>
  header = bytearray(os.urandom(16))
  mv_head = memoryview(header)
  magic, major, minor = struct.unpack_from(">IHH", mv_head, 0)
  \<close>
  The parsing is done by the standard library's \<^verbatim>\<open>struct.unpack_from(format, buffer, offset)\<close>.
  The model covers the formats the notebook's call belongs to: the prefix \<^verbatim>\<open>>\<close>
  (big-endian, standard sizes, no padding) followed by unsigned integer codes. A format is
  the list of its codes, so \<^verbatim>\<open>">IHH"\<close> is \<open>[Fmt_I, Fmt_H, Fmt_H]\<close>.
\<close>

datatype fmt_code = Fmt_B | Fmt_H | Fmt_I | Fmt_L | Fmt_Q

fun code_size :: "fmt_code \<Rightarrow> nat" where
  "code_size Fmt_B = 1"
| "code_size Fmt_H = 2"
| "code_size Fmt_I = 4"
| "code_size Fmt_L = 4"
| "code_size Fmt_Q = 8"

text \<open>\<^verbatim>\<open>struct.calcsize\<close>: the number of bytes a format reads.\<close>

definition calcsize :: "fmt_code list \<Rightarrow> nat" where
  "calcsize fmt = sum_list (map code_size fmt)"

text \<open>
  One big-endian unsigned field: the bytes are folded from the first (most significant)
  to the last, each step shifting the accumulator by one byte.
\<close>

definition bu_uint :: "byte list \<Rightarrow> int" where
  "bu_uint bs = foldl (\<lambda>x b. x * 256 + of_char b) 0 bs"

fun unpack_fields :: "fmt_code list \<Rightarrow> byte list \<Rightarrow> int list" where
  "unpack_fields [] bs = []"
| "unpack_fields (c # cs) bs =
     bu_uint (take (code_size c) bs) # unpack_fields cs (drop (code_size c) bs)"

text \<open>
  \<^verbatim>\<open>unpack_from\<close> on the bytes of the buffer. A negative offset counts from the end of
  the buffer; the call raises \<^verbatim>\<open>struct.error\<close> (\<open>StructError\<close>) when the buffer does not
  hold \<open>calcsize fmt\<close> bytes from the offset on, and returns the tuple of the decoded
  fields, in the order of the format, otherwise.
\<close>

definition unpack_from :: "fmt_code list \<Rightarrow> byte list \<Rightarrow> int \<Rightarrow> py_error + int list" where
  "unpack_from fmt buffer offset =
     (let size = int (calcsize fmt); n = int (length buffer) in
      if offset < 0 \<and> offset + size > 0 then Inl StructError
      else if offset < 0 \<and> offset + n < 0 then Inl StructError
      else
        let off = (if offset < 0 then offset + n else offset) in
        if n - off < size then Inl StructError
        else Inr (unpack_fields fmt (drop (nat off) buffer)))"

section \<open>Python objects in a store\<close>

text \<open>
  \<^verbatim>\<open>build_packet\<close> allocates a buffer and writes into it while it reads its arguments, and
  the arguments are references. The objects live in a store: a list of objects, an
  address being an index into it, and an allocation appending to it, so that a new
  object never has the address of one that exists.

  The objects are the three kinds the docstring of \<^verbatim>\<open>build_packet\<close> names, and whatever
  else a caller can pass:
  \<^item> \<open>Bytes bs\<close> and \<open>Bytearray bs\<close> with their content;
  \<^item> \<open>Memoryview (Some v)\<close>, a live memoryview that presents the buffer \<open>v\<close>;
    \<open>Memoryview None\<close>, a view after \<^verbatim>\<open>release()\<close>;
  \<^item> \<open>Other r\<close>, an object without the buffer protocol (a \<^verbatim>\<open>str\<close>, a list, an \<^verbatim>\<open>int\<close>,
    an instance of a class of the caller's): \<open>r\<close> is what its \<^verbatim>\<open>__len__\<close> reports, \<open>NoLen\<close>
    when it has none.
  A store has no size limit, and no integer is too large to be an index: CPython's
  \<^verbatim>\<open>MemoryError\<close> and the \<^verbatim>\<open>OverflowError\<close> of an index beyond the platform's limit are
  outside the model.
\<close>

datatype len_report = NoLen | Len int

text \<open>
  What a memoryview presents, as far as \<^verbatim>\<open>len\<close>, slice assignment and \<^verbatim>\<open>struct\<close> look at
  it:
  \<^item> \<open>Flat format itemsize mem\<close>, a view of one dimension: its \<^verbatim>\<open>format\<close> string, its
    \<^verbatim>\<open>itemsize\<close> (at least 1) and the bytes of its items. \<^verbatim>\<open>memoryview(b"abcd")\<close> is
    \<open>Flat ''B'' 1 ''abcd''\<close>, \<^verbatim>\<open>memoryview(b"abcd").cast("b")\<close> is \<open>Flat ''b'' 1 ''abcd''\<close>,
    and a view of \<^verbatim>\<open>array("H", [1, 2])\<close> is a \<open>Flat ''H'' 2\<close> of four bytes;
  \<^item> \<open>Multi n mem\<close>, a view of two or more dimensions, \<open>n\<close> the size of the first.
  Views of no dimension and views with gaps between their items are outside the model.
\<close>

datatype view =
    Flat string nat "byte list"
  | Multi nat "byte list"

datatype pyobj =
    Bytes "byte list"
  | Bytearray "byte list"
  | Memoryview "view option"
  | Other len_report

fun view_mem :: "view \<Rightarrow> byte list" where
  "view_mem (Flat format itemsize mem) = mem"
| "view_mem (Multi n mem) = mem"

type_synonym addr = nat
type_synonym heap = "pyobj list"

text \<open>
  The built-in \<^verbatim>\<open>len\<close>: \<^verbatim>\<open>TypeError\<close> for an object without length, \<^verbatim>\<open>ValueError\<close> for a
  \<^verbatim>\<open>__len__\<close> that reports a negative number and for a released memoryview. The length of
  a live memoryview is the size of its first dimension: the number of its items, not of
  its bytes.
\<close>

fun py_len :: "pyobj \<Rightarrow> py_error + nat" where
  "py_len (Bytes bs) = Inr (length bs)"
| "py_len (Bytearray bs) = Inr (length bs)"
| "py_len (Memoryview (Some (Flat format itemsize mem))) = Inr (length mem div itemsize)"
| "py_len (Memoryview (Some (Multi n mem))) = Inr n"
| "py_len (Memoryview None) = Inl ValueError"
| "py_len (Other NoLen) = Inl TypeError"
| "py_len (Other (Len n)) = (if n < 0 then Inl ValueError else Inr (nat n))"

text \<open>
  Asking an object for its buffer, as a consumer of bytes does. A \<^verbatim>\<open>bytes\<close> and a
  \<^verbatim>\<open>bytearray\<close> export one dimension of unsigned bytes, format \<^verbatim>\<open>"B"\<close>.
\<close>

fun get_buffer :: "pyobj \<Rightarrow> py_error + view" where
  "get_buffer (Bytes bs) = Inr (Flat ''B'' 1 bs)"
| "get_buffer (Bytearray bs) = Inr (Flat ''B'' 1 bs)"
| "get_buffer (Memoryview (Some v)) = Inr v"
| "get_buffer (Memoryview None) = Inl ValueError"
| "get_buffer (Other r) = Inl TypeError"

text \<open>
  Slice assignment copies only between buffers of the same structure. The destination
  is a slice of \<open>n\<close> items of a \<^verbatim>\<open>memoryview(bytearray)\<close>: one dimension, format \<^verbatim>\<open>"B"\<close>,
  item size 1. The source must have the same format (a leading \<^verbatim>\<open>@\<close> is not compared),
  the same item size, one dimension, and \<open>n\<close> items.
\<close>

fun native_format :: "string \<Rightarrow> string" where
  "native_format (c # cs) = (if c = CHR ''@'' then cs else c # cs)"
| "native_format [] = []"

fun equiv_structure :: "nat \<Rightarrow> view \<Rightarrow> bool" where
  "equiv_structure n (Flat format itemsize mem) =
     (native_format format = native_format ''B'' \<and> itemsize = 1 \<and>
      length mem div itemsize = n)"
| "equiv_structure n (Multi m mem) = False"

text \<open>
  \<^verbatim>\<open>mv[lo:hi] = val\<close>, for \<open>mv\<close> a memoryview of the object at address \<open>b\<close> and bounds that
  are not negative. The view is writable only over a \<^verbatim>\<open>bytearray\<close>; \<open>val\<close> must export
  a buffer; the bounds are clipped to the buffer; and the assignment never resizes or
  converts: a right-hand side that has not the structure of the slice (its format, its
  item size, its one dimension, its length) raises \<^verbatim>\<open>ValueError\<close>.
\<close>

definition mv_setslice ::
  "addr \<Rightarrow> nat \<Rightarrow> nat \<Rightarrow> pyobj \<Rightarrow> heap \<Rightarrow> (py_error + unit) \<times> heap" where
  "mv_setslice b lo hi val h =
     (case h ! b of
        Bytearray buf \<Rightarrow>
          (case get_buffer val of
             Inl e \<Rightarrow> (Inl e, h)
           | Inr src \<Rightarrow>
               (let start = min lo (length buf);
                    stop = max start (min hi (length buf))
                in if \<not> equiv_structure (stop - start) src then (Inl ValueError, h)
                   else (Inr (), h[b := Bytearray
                           (take start buf @ view_mem src @ drop stop buf)])))
      | _ \<Rightarrow> (Inl TypeError, h))"

section \<open>Case 5: \<^verbatim>\<open>build_packet\<close>\<close>

text \<open>
  \<^verbatim>\<open>
  def build_packet(parts):
      total_size = sum(len(p) for p in parts)
      buf = bytearray(total_size)
      mv = memoryview(buf)
      offset = 0
      for part in parts:
          part_length = len(part)
          mv[offset:offset + part_length] = part
          offset += part_length
      mv.release()
      return buf
  \<close>
  \<open>parts\<close> is the list of the addresses of the parts. A call returns the store it leaves
  together with its result, also when it raises: what was written before an exception
  stays written. \<open>mv\<close> aliases \<open>buf\<close>, so a store through \<open>mv\<close> is a store into the object
  at the address of \<open>buf\<close>.
\<close>

text \<open>\<^verbatim>\<open>sum(len(p) for p in parts)\<close>, which stops at the first \<^verbatim>\<open>len\<close> that raises.\<close>

fun sum_len :: "heap \<Rightarrow> addr list \<Rightarrow> nat \<Rightarrow> py_error + nat" where
  "sum_len h [] acc = Inr acc"
| "sum_len h (p # ps) acc =
     (case py_len (h ! p) of
        Inl e \<Rightarrow> Inl e
      | Inr n \<Rightarrow> sum_len h ps (acc + n))"

text \<open>The \<^verbatim>\<open>for\<close> loop, with \<open>b\<close> the address of \<open>buf\<close>.\<close>

fun copy_parts :: "addr \<Rightarrow> addr list \<Rightarrow> nat \<Rightarrow> heap \<Rightarrow> (py_error + unit) \<times> heap" where
  "copy_parts b [] offset h = (Inr (), h)"
| "copy_parts b (part # rest) offset h =
     (case py_len (h ! part) of
        Inl e \<Rightarrow> (Inl e, h)
      | Inr part_length \<Rightarrow>
          (case mv_setslice b offset (offset + part_length) (h ! part) h of
             (Inl e, h') \<Rightarrow> (Inl e, h')
           | (Inr u, h') \<Rightarrow> copy_parts b rest (offset + part_length) h'))"

definition build_packet :: "addr list \<Rightarrow> heap \<Rightarrow> (py_error + addr) \<times> heap" where
  "build_packet parts h =
     (case sum_len h parts 0 of
        Inl e \<Rightarrow> (Inl e, h)
      | Inr total_size \<Rightarrow>
          (let buf = length h;
               h1 = h @ [Bytearray (replicate total_size (CHR 0x00))]
           in case copy_parts buf parts 0 h1 of
                (Inl e, h2) \<Rightarrow> (Inl e, h2)
              | (Inr u, h2) \<Rightarrow> (Inr buf, h2)))"

text \<open>
  \<^verbatim>\<open>struct.unpack_from\<close> called on an object of the store: it takes the object's bytes
  through the buffer protocol, decodes them, and writes nothing.
\<close>

definition struct_unpack_from ::
  "fmt_code list \<Rightarrow> addr \<Rightarrow> int \<Rightarrow> heap \<Rightarrow> (py_error + int list) \<times> heap" where
  "struct_unpack_from fmt a offset h =
     (case get_buffer (h ! a) of
        Inl e \<Rightarrow> (Inl e, h)
      | Inr buffer \<Rightarrow> (unpack_from fmt (view_mem buffer) offset, h))"

text \<open>
  A source of unsigned bytes is an object whose buffer is one dimension of unsigned
  bytes: a \<^verbatim>\<open>bytes\<close>, a \<^verbatim>\<open>bytearray\<close>, or a live memoryview of format \<^verbatim>\<open>"B"\<close> or \<^verbatim>\<open>"@B"\<close> (what
  \<^verbatim>\<open>memoryview\<close> gives of a \<^verbatim>\<open>bytes\<close> or a \<^verbatim>\<open>bytearray\<close>, before any \<^verbatim>\<open>cast\<close>).
  \<open>source_bytes\<close> is the content of an object that has a buffer.
\<close>

definition byte_source :: "pyobj \<Rightarrow> bool" where
  "byte_source obj =
     (case obj of Bytes bs \<Rightarrow> True | Bytearray bs \<Rightarrow> True
      | Memoryview (Some (Flat format itemsize mem)) \<Rightarrow>
          native_format format = ''B'' \<and> itemsize = 1
      | _ \<Rightarrow> False)"

definition source_bytes :: "pyobj \<Rightarrow> byte list" where
  "source_bytes obj =
     (case obj of Bytes bs \<Rightarrow> bs | Bytearray bs \<Rightarrow> bs
      | Memoryview (Some v) \<Rightarrow> view_mem v | _ \<Rightarrow> [])"

section \<open>Properties of \<^verbatim>\<open>reverse_inplace\<close>\<close>

lemma swap_items_in_range:
  assumes "0 \<le> l" "l < r" "r < int (length mv)"
  shows "swap_items mv l r = Inr (mv[nat l := mv ! nat r, nat r := mv ! nat l])"
  using assms by (simp add: swap_items_def mv_getitem_def mv_setitem_def norm_index_def)

text \<open>
  The loop invariant, as a statement about the whole remaining run: started with both
  cursors inside the buffer, the loop ends normally, and it has mirrored exactly the
  segment between the cursors.
\<close>

lemma reverse_loop_spec:
  assumes "0 \<le> l" "r < int (length mv)"
  shows "\<exists>ys. reverse_loop mv l r = Some (Inr ys) \<and> length ys = length mv \<and>
           (\<forall>i<length mv. ys ! i =
              (if l \<le> int i \<and> int i \<le> r then mv ! nat (l + r - int i) else mv ! i))"
  using assms
proof (induction "nat (r - l)" arbitrary: mv l r rule: less_induct)
  case less
  show ?case
  proof (cases "l < r")
    case False
    then have "reverse_loop mv l r = Some (Inr mv)"
      by (subst reverse_loop.simps) simp
    moreover have "\<forall>i<length mv. mv ! i =
              (if l \<le> int i \<and> int i \<le> r then mv ! nat (l + r - int i) else mv ! i)"
    proof (intro allI impI)
      fix i assume "i < length mv"
      have "nat (l + r - int i) = i" if "l \<le> int i \<and> int i \<le> r"
        using that False by linarith
      then show "mv ! i =
              (if l \<le> int i \<and> int i \<le> r then mv ! nat (l + r - int i) else mv ! i)"
        by simp
    qed
    ultimately show ?thesis by simp
  next
    case True
    let ?mv' = "mv[nat l := mv ! nat r, nat r := mv ! nat l]"
    have sw: "swap_items mv l r = Inr ?mv'"
      using swap_items_in_range [OF less.prems(1) True less.prems(2)] .
    have unf: "reverse_loop mv l r = reverse_loop ?mv' (l + 1) (r - 1)"
      using True sw by (subst reverse_loop.simps) simp
    have "nat (r - 1 - (l + 1)) < nat (r - l)" using True by simp
    moreover have "0 \<le> l + 1" using less.prems by simp
    moreover have "r - 1 < int (length ?mv')" using less.prems by simp
    ultimately obtain ys where ys: "reverse_loop ?mv' (l + 1) (r - 1) = Some (Inr ys)"
      "length ys = length ?mv'"
      "\<forall>i<length ?mv'. ys ! i =
         (if l + 1 \<le> int i \<and> int i \<le> r - 1
          then ?mv' ! nat (l + 1 + (r - 1) - int i) else ?mv' ! i)"
      using less.hyps [of "r - 1" "l + 1" ?mv'] by blast
    have "ys ! i = (if l \<le> int i \<and> int i \<le> r then mv ! nat (l + r - int i) else mv ! i)"
      if "i < length mv" for i
    proof -
      have lr: "nat l < length mv" "nat r < length mv" "nat l \<noteq> nat r"
        using less.prems True by auto
      consider "int i < l" | "int i = l" | "l < int i \<and> int i < r" | "int i = r" | "r < int i"
        by linarith
      then show ?thesis
      proof cases
        case 3
        then have "nat (l + 1 + (r - 1) - int i) \<noteq> nat l"
          "nat (l + 1 + (r - 1) - int i) \<noteq> nat r"
          using less.prems by auto
        moreover have "l + 1 + (r - 1) - int i = l + r - int i" by simp
        ultimately show ?thesis using ys(3) that 3 lr by (simp add: nth_list_update)
      next
        case 1
        then show ?thesis using ys(3) that lr less.prems True by (auto simp: nth_list_update)
      next
        case 2
        then show ?thesis using ys(3) that lr less.prems True by (auto simp: nth_list_update)
      next
        case 4
        then show ?thesis using ys(3) that lr less.prems True by (auto simp: nth_list_update)
      next
        case 5
        then show ?thesis using ys(3) that lr less.prems True by (auto simp: nth_list_update)
      qed
    qed
    then show ?thesis using unf ys(1,2) by simp
  qed
qed

lemma reverse_inplace_rev: "reverse_inplace data = Some (Inr (rev data))"
proof -
  obtain ys where ys: "reverse_loop data 0 (int (length data) - 1) = Some (Inr ys)"
    "length ys = length data"
    "\<forall>i<length data. ys ! i =
       (if 0 \<le> int i \<and> int i \<le> int (length data) - 1
        then data ! nat (0 + (int (length data) - 1) - int i) else data ! i)"
    using reverse_loop_spec [of 0 "int (length data) - 1" data] by auto
  have "ys = rev data"
  proof (rule nth_equalityI)
    show "length ys = length (rev data)" using ys(2) by simp
  next
    fix i assume "i < length ys"
    then have i: "i < length data" using ys(2) by simp
    then have "ys ! i = data ! nat (int (length data) - 1 - int i)" using ys(3) by auto
    also have "nat (int (length data) - 1 - int i) = length data - Suc i" using i by linarith
    finally show "ys ! i = rev data ! i" using i by (simp add: rev_nth)
  qed
  then show ?thesis using ys(1) by (simp add: reverse_inplace_def)
qed

text \<open>
  Termination from any state of the loop, also one whose cursors lie outside the
  buffer: every pass either leaves the loop with an exception or makes
  \<open>right - left\<close> smaller by two.
\<close>

lemma reverse_loop_returns: "\<exists>res. reverse_loop mv l r = Some res"
proof (induction "nat (r - l)" arbitrary: mv l r rule: less_induct)
  case less
  show ?case
  proof (cases "l < r")
    case False
    then show ?thesis by (subst reverse_loop.simps) simp
  next
    case True
    show ?thesis
    proof (cases "swap_items mv l r")
      case (Inl e)
      then show ?thesis using True by (subst reverse_loop.simps) simp
    next
      case (Inr mv')
      have "nat (r - 1 - (l + 1)) < nat (r - l)" using True by simp
      then obtain res where "reverse_loop mv' (l + 1) (r - 1) = Some res"
        using less.hyps [of "r - 1" "l + 1" mv'] by blast
      then show ?thesis using True Inr by (subst reverse_loop.simps) simp
    qed
  qed
qed

text \<open>
  Claim C5. After \<^verbatim>\<open>reverse_inplace\<close> the buffer holds at every index \<open>i\<close> the byte that was
  at index \<open>length - 1 - i\<close> before the call, and it has the length it had; the call ends
  without an exception. On the bytes of \<^verbatim>\<open>abcdefghijklmnopqrstuvwxyz\<close> the first ten bytes
  afterwards are \<^verbatim>\<open>zyxwvutsrq\<close>.
\<close>

theorem reverse_inplace_mirrors:
  "(\<exists>buf. reverse_inplace data = Some (Inr buf) \<and> length buf = length data \<and>
      (\<forall>i<length data. buf ! i = data ! (length data - 1 - i))) \<and>
   (\<exists>buf. reverse_inplace ''abcdefghijklmnopqrstuvwxyz'' = Some (Inr buf) \<and>
      take 10 buf = ''zyxwvutsrq'')"
proof (intro conjI)
  have "\<forall>i<length data. rev data ! i = data ! (length data - 1 - i)"
    by (simp add: rev_nth)
  then show "\<exists>buf. reverse_inplace data = Some (Inr buf) \<and> length buf = length data \<and>
      (\<forall>i<length data. buf ! i = data ! (length data - 1 - i))"
    using reverse_inplace_rev [of data] by simp
next
  show "\<exists>buf. reverse_inplace ''abcdefghijklmnopqrstuvwxyz'' = Some (Inr buf) \<and>
      take 10 buf = ''zyxwvutsrq''"
    using reverse_inplace_rev [of "''abcdefghijklmnopqrstuvwxyz''"] by simp
qed

theorem reverse_inplace_mirrors_witness:
  "(1::nat) < length ''abc'' \<and>
   (\<exists>buf. reverse_inplace ''abc'' = Some (Inr buf) \<and> length buf = 3 \<and>
      buf ! 1 = ''abc'' ! (length ''abc'' - 1 - 1) \<and> buf ! 0 = CHR ''c'')"
proof -
  obtain buf where b: "reverse_inplace ''abc'' = Some (Inr buf)"
    "length buf = length ''abc''"
    "\<forall>i<length ''abc''. buf ! i = ''abc'' ! (length ''abc'' - 1 - i)"
    using reverse_inplace_mirrors [of "''abc''"] by blast
  have "buf ! 1 = ''abc'' ! (length ''abc'' - 1 - 1)" using b(3) by simp
  moreover have "buf ! 0 = ''abc'' ! (length ''abc'' - 1 - 0)" using b(3) by simp
  ultimately show ?thesis using b(1,2) by simp
qed

text \<open>
  Claim C6. Two calls of \<^verbatim>\<open>reverse_inplace\<close> in a row give the buffer its first content
  back, and one call on a buffer of length 0 or 1 changes nothing.
\<close>

theorem reverse_inplace_involution:
  "(\<exists>buf. reverse_inplace data = Some (Inr buf) \<and> reverse_inplace buf = Some (Inr data)) \<and>
   (length data \<le> 1 \<longrightarrow> reverse_inplace data = Some (Inr data))"
proof (intro conjI impI)
  show "\<exists>buf. reverse_inplace data = Some (Inr buf) \<and> reverse_inplace buf = Some (Inr data)"
    using reverse_inplace_rev [of data] reverse_inplace_rev [of "rev data"] by simp
next
  assume "length data \<le> 1"
  then have "rev data = data" by (cases data) auto
  then show "reverse_inplace data = Some (Inr data)"
    using reverse_inplace_rev [of data] by simp
qed

theorem reverse_inplace_involution_witness:
  "length ''q'' \<le> 1 \<and> reverse_inplace ''q'' = Some (Inr ''q'') \<and>
   (\<exists>buf. reverse_inplace ''ab'' = Some (Inr buf) \<and> reverse_inplace buf = Some (Inr ''ab''))"
  using reverse_inplace_involution [of "''q''"] reverse_inplace_involution [of "''ab''"]
  by simp

text \<open>
  Claim C10. \<^verbatim>\<open>reverse_inplace\<close> returns on every buffer. The loop returns from every
  state: a pass that runs (\<open>left < right\<close>) and raises nothing continues with
  \<open>left + 1\<close> and \<open>right - 1\<close>, which makes the measure \<open>right - left\<close> strictly smaller,
  and with \<open>left \<ge> right\<close> the loop exits at once with the buffer as it is.
\<close>

theorem reverse_inplace_terminates:
  "(\<exists>res. reverse_inplace data = Some res) \<and>
   (\<exists>res. reverse_loop mv left right = Some res) \<and>
   (left < right \<longrightarrow> swap_items mv left right = Inr mv' \<longrightarrow>
      reverse_loop mv left right = reverse_loop mv' (left + 1) (right - 1) \<and>
      nat ((right - 1) - (left + 1)) < nat (right - left)) \<and>
   (right \<le> left \<longrightarrow> reverse_loop mv left right = Some (Inr mv))"
proof (intro conjI impI)
  show "\<exists>res. reverse_inplace data = Some res"
    unfolding reverse_inplace_def by (rule reverse_loop_returns)
next
  show "\<exists>res. reverse_loop mv left right = Some res"
    by (rule reverse_loop_returns)
next
  assume "left < right" "swap_items mv left right = Inr mv'"
  then show "reverse_loop mv left right = reverse_loop mv' (left + 1) (right - 1)"
    by (subst reverse_loop.simps) simp
next
  assume "left < right"
  then show "nat ((right - 1) - (left + 1)) < nat (right - left)" by simp
next
  assume "right \<le> left"
  then show "reverse_loop mv left right = Some (Inr mv)"
    by (subst reverse_loop.simps) simp
qed

theorem reverse_inplace_terminates_witness:
  "(0::int) < 3 \<and> swap_items ''abcd'' 0 3 = Inr ''dbca'' \<and>
   reverse_loop ''abcd'' 0 3 = reverse_loop ''dbca'' (0 + 1) (3 - 1) \<and>
   nat ((3 - 1) - (0 + 1)) < nat (3 - (0::int)) \<and>
   (2::int) \<le> 2 \<and> reverse_loop ''dcba'' 2 2 = Some (Inr ''dcba'') \<and>
   (\<exists>res. reverse_inplace ''abcd'' = Some res)"
proof -
  have sw: "swap_items ''abcd'' 0 3 = Inr ''dbca''"
    by (simp add: swap_items_def mv_getitem_def mv_setitem_def norm_index_def)
  show ?thesis
    using sw reverse_inplace_terminates [of "''abcd''" "''abcd''" 0 3 "''dbca''"]
      reverse_inplace_terminates [of "''abcd''" "''dcba''" 2 2 "''dcba''"]
    by simp
qed

section \<open>Properties of \<^verbatim>\<open>struct.unpack_from\<close>\<close>

lemma bu_uint_snoc: "bu_uint (bs @ [b]) = bu_uint bs * 256 + of_char b"
  by (simp add: bu_uint_def)

lemma bu_uint_sum:
  "bu_uint bs = (\<Sum>j<length bs. of_char (bs ! j) * 256 ^ (length bs - 1 - j))"
proof (induction bs rule: rev_induct)
  case Nil
  show ?case by (simp add: bu_uint_def)
next
  case (snoc b bs)
  have "(\<Sum>j<length bs. of_char ((bs @ [b]) ! j) * (256::int) ^ (length (bs @ [b]) - 1 - j))
      = (\<Sum>j<length bs. (of_char (bs ! j) * 256 ^ (length bs - 1 - j)) * 256)"
  proof (rule sum.cong)
    fix j assume "j \<in> {..<length bs}"
    then have j: "j < length bs" by simp
    then have "length (bs @ [b]) - 1 - j = Suc (length bs - 1 - j)" by simp
    then show "of_char ((bs @ [b]) ! j) * (256::int) ^ (length (bs @ [b]) - 1 - j)
       = (of_char (bs ! j) * 256 ^ (length bs - 1 - j)) * 256"
      using j by (simp add: nth_append)
  qed simp
  also have "\<dots> = bu_uint bs * 256"
    by (simp add: snoc.IH sum_distrib_right)
  finally show ?case
    by (simp add: bu_uint_snoc)
qed

lemma calcsize_Cons: "calcsize (c # cs) = code_size c + calcsize cs"
  by (simp add: calcsize_def)

lemma calcsize_Nil: "calcsize [] = 0"
  by (simp add: calcsize_def)

lemma length_unpack_fields: "length (unpack_fields fmt bs) = length fmt"
  by (induction fmt arbitrary: bs) auto

lemma unpack_fields_nth:
  "k < length fmt \<Longrightarrow>
   unpack_fields fmt bs ! k =
     bu_uint (take (code_size (fmt ! k)) (drop (calcsize (take k fmt)) bs))"
proof (induction fmt arbitrary: bs k)
  case Nil
  then show ?case by simp
next
  case (Cons c cs)
  show ?case
  proof (cases k)
    case 0
    then show ?thesis by (simp add: calcsize_Nil)
  next
    case (Suc k')
    then have "k' < length cs" using Cons.prems by simp
    then show ?thesis using Suc Cons.IH [of k' "drop (code_size c) bs"]
      by (simp add: calcsize_Cons add.commute)
  qed
qed

lemma calcsize_take_le:
  "k < length fmt \<Longrightarrow> calcsize (take k fmt) + code_size (fmt ! k) \<le> calcsize fmt"
proof (induction fmt arbitrary: k)
  case Nil
  then show ?case by simp
next
  case (Cons c cs)
  then show ?case by (cases k) (auto simp: calcsize_Cons calcsize_Nil)
qed

lemma bu_uint_slice:
  assumes "s + w \<le> length bs"
  shows "bu_uint (take w (drop s bs)) = (\<Sum>j<w. of_char (bs ! (s + j)) * 256 ^ (w - 1 - j))"
proof -
  have len: "length (take w (drop s bs)) = w" using assms by simp
  have "bu_uint (take w (drop s bs))
      = (\<Sum>j<w. of_char (take w (drop s bs) ! j) * 256 ^ (w - 1 - j))"
    using bu_uint_sum [of "take w (drop s bs)"] len by simp
  also have "\<dots> = (\<Sum>j<w. of_char (bs ! (s + j)) * 256 ^ (w - 1 - j))"
    using assms by (intro sum.cong) auto
  finally show ?thesis .
qed

lemma unpack_from_in_bounds:
  assumes "0 \<le> offset" "offset + int (calcsize fmt) \<le> int (length buffer)"
  shows "unpack_from fmt buffer offset = Inr (unpack_fields fmt (drop (nat offset) buffer))"
  using assms by (simp add: unpack_from_def Let_def)

lemma unpack_from_out_of_bounds:
  assumes "0 \<le> offset" "int (length buffer) < offset + int (calcsize fmt)"
  shows "unpack_from fmt buffer offset = Inl StructError"
  using assms by (simp add: unpack_from_def Let_def)

text \<open>
  Claim C2. For a buffer, a format of big-endian unsigned fields and an offset that is
  not negative with \<open>offset + calcsize fmt \<le> length buffer\<close>, \<^verbatim>\<open>unpack_from\<close> returns one
  value for each field of the format, and the value of field \<open>k\<close> is the big-endian
  unsigned number written by the bytes of that field: the byte at position \<open>j\<close> of the
  field, which lies at \<open>offset\<close> plus the widths of the fields before plus \<open>j\<close>, counts
  \<open>256 ^ (width - 1 - j)\<close>. A 16-byte buffer that starts with
  \<^verbatim>\<open>00 00 00 01 00 02 00 03\<close>, read at offset 0 with \<^verbatim>\<open>">IHH"\<close>, gives \<open>(1, 2, 3)\<close>.
\<close>

theorem unpack_from_decodes:
  "(0 \<le> offset \<and> offset + int (calcsize fmt) \<le> int (length buffer) \<longrightarrow>
      (\<exists>vals. unpack_from fmt buffer offset = Inr vals \<and> length vals = length fmt \<and>
         (\<forall>k<length fmt. vals ! k =
            (\<Sum>j<code_size (fmt ! k).
               of_char (buffer ! (nat offset + calcsize (take k fmt) + j))
                 * 256 ^ (code_size (fmt ! k) - 1 - j))))) \<and>
   (length rest = 8 \<longrightarrow>
      unpack_from [Fmt_I, Fmt_H, Fmt_H]
        ([CHR 0x00, CHR 0x00, CHR 0x00, CHR 0x01, CHR 0x00, CHR 0x02, CHR 0x00, CHR 0x03] @ rest) 0
      = Inr [1, 2, 3])"
proof (intro conjI impI)
  assume a: "0 \<le> offset \<and> offset + int (calcsize fmt) \<le> int (length buffer)"
  let ?vals = "unpack_fields fmt (drop (nat offset) buffer)"
  have "?vals ! k = (\<Sum>j<code_size (fmt ! k).
               of_char (buffer ! (nat offset + calcsize (take k fmt) + j))
                 * 256 ^ (code_size (fmt ! k) - 1 - j))" if k: "k < length fmt" for k
  proof -
    have "nat offset + calcsize (take k fmt) + code_size (fmt ! k) \<le> length buffer"
      using a calcsize_take_le [OF k] by linarith
    then have "bu_uint (take (code_size (fmt ! k))
                   (drop (nat offset + calcsize (take k fmt)) buffer))
       = (\<Sum>j<code_size (fmt ! k).
               of_char (buffer ! (nat offset + calcsize (take k fmt) + j))
                 * 256 ^ (code_size (fmt ! k) - 1 - j))"
      by (rule bu_uint_slice)
    then show ?thesis
      using unpack_fields_nth [OF k, of "drop (nat offset) buffer"] by (simp add: add.commute)
  qed
  then show "\<exists>vals. unpack_from fmt buffer offset = Inr vals \<and> length vals = length fmt \<and>
         (\<forall>k<length fmt. vals ! k =
            (\<Sum>j<code_size (fmt ! k).
               of_char (buffer ! (nat offset + calcsize (take k fmt) + j))
                 * 256 ^ (code_size (fmt ! k) - 1 - j)))"
    using a unpack_from_in_bounds [of offset fmt buffer] by (simp add: length_unpack_fields)
next
  assume "length rest = 8"
  then show "unpack_from [Fmt_I, Fmt_H, Fmt_H]
        ([CHR 0x00, CHR 0x00, CHR 0x00, CHR 0x01, CHR 0x00, CHR 0x02, CHR 0x00, CHR 0x03] @ rest) 0
      = Inr [1, 2, 3]"
    by (simp add: unpack_from_def calcsize_def bu_uint_def)
qed

theorem unpack_from_decodes_witness:
  "(0::int) \<le> 1 \<and>
   1 + int (calcsize [Fmt_H, Fmt_B]) \<le> int (length [CHR 0xFF, CHR 0x01, CHR 0x02, CHR 0x03]) \<and>
   (\<exists>vals. unpack_from [Fmt_H, Fmt_B] [CHR 0xFF, CHR 0x01, CHR 0x02, CHR 0x03] 1 = Inr vals \<and>
      length vals = 2 \<and> vals ! 0 = 258 \<and> vals ! 1 = 3) \<and>
   length ''abcdefgh'' = 8 \<and>
   unpack_from [Fmt_I, Fmt_H, Fmt_H]
     ([CHR 0x00, CHR 0x00, CHR 0x00, CHR 0x01, CHR 0x00, CHR 0x02, CHR 0x00, CHR 0x03]
        @ ''abcdefgh'') 0 = Inr [1, 2, 3]"
proof -
  let ?F = "[Fmt_H, Fmt_B]"
  let ?B = "[CHR 0xFF, CHR 0x01, CHR 0x02, CHR 0x03]"
  note T = unpack_from_decodes [of 1 ?F ?B "''abcdefgh''"]
  have hyp: "(0::int) \<le> 1 \<and> 1 + int (calcsize ?F) \<le> int (length ?B)"
    by (simp add: calcsize_def)
  then obtain vals where v: "unpack_from ?F ?B 1 = Inr vals" "length vals = length ?F"
    "\<forall>k<length ?F. vals ! k =
        (\<Sum>j<code_size (?F ! k).
           of_char (?B ! (nat 1 + calcsize (take k ?F) + j)) * 256 ^ (code_size (?F ! k) - 1 - j))"
    using T by blast
  have "vals ! 0 = (\<Sum>j<code_size (?F ! 0).
           of_char (?B ! (nat 1 + calcsize (take 0 ?F) + j)) * 256 ^ (code_size (?F ! 0) - 1 - j))"
    using v(3) by simp
  then have v0: "vals ! 0 = 258"
    by (simp add: calcsize_def eval_nat_numeral)
  have "vals ! 1 = (\<Sum>j<code_size (?F ! 1).
           of_char (?B ! (nat 1 + calcsize (take 1 ?F) + j)) * 256 ^ (code_size (?F ! 1) - 1 - j))"
    using v(3) by simp
  then have v1: "vals ! 1 = 3"
    by (simp add: calcsize_def eval_nat_numeral)
  have "unpack_from [Fmt_I, Fmt_H, Fmt_H]
     ([CHR 0x00, CHR 0x00, CHR 0x00, CHR 0x01, CHR 0x00, CHR 0x02, CHR 0x00, CHR 0x03]
        @ ''abcdefgh'') 0 = Inr [1, 2, 3]"
    using T by simp
  then show ?thesis using hyp v(1,2) v0 v1 by simp
qed

text \<open>
  Claim C3. For an offset that is not negative, \<^verbatim>\<open>unpack_from\<close> raises \<^verbatim>\<open>struct.error\<close>
  exactly when \<open>offset + calcsize fmt > length buffer\<close>, and returns values exactly when
  \<open>offset + calcsize fmt \<le> length buffer\<close>: with \<open>offset + calcsize fmt = length buffer\<close>
  it returns, with \<open>offset + calcsize fmt = length buffer + 1\<close> it raises.
\<close>

theorem unpack_from_bounds:
  "0 \<le> offset \<longrightarrow>
     ((unpack_from fmt buffer offset = Inl StructError)
        = (int (length buffer) < offset + int (calcsize fmt))) \<and>
     ((\<exists>vals. unpack_from fmt buffer offset = Inr vals)
        = (offset + int (calcsize fmt) \<le> int (length buffer))) \<and>
     (offset + int (calcsize fmt) = int (length buffer) \<longrightarrow>
        (\<exists>vals. unpack_from fmt buffer offset = Inr vals)) \<and>
     (offset + int (calcsize fmt) = int (length buffer) + 1 \<longrightarrow>
        unpack_from fmt buffer offset = Inl StructError)"
proof
  assume nonneg: "0 \<le> offset"
  show "((unpack_from fmt buffer offset = Inl StructError)
        = (int (length buffer) < offset + int (calcsize fmt))) \<and>
     ((\<exists>vals. unpack_from fmt buffer offset = Inr vals)
        = (offset + int (calcsize fmt) \<le> int (length buffer))) \<and>
     (offset + int (calcsize fmt) = int (length buffer) \<longrightarrow>
        (\<exists>vals. unpack_from fmt buffer offset = Inr vals)) \<and>
     (offset + int (calcsize fmt) = int (length buffer) + 1 \<longrightarrow>
        unpack_from fmt buffer offset = Inl StructError)"
  proof (cases "offset + int (calcsize fmt) \<le> int (length buffer)")
    case True
    then show ?thesis using unpack_from_in_bounds [OF nonneg True] by simp
  next
    case False
    then have "int (length buffer) < offset + int (calcsize fmt)" by simp
    from unpack_from_out_of_bounds [OF nonneg this] False show ?thesis by simp
  qed
qed

theorem unpack_from_bounds_witness:
  "(0::int) \<le> 0 \<and>
   0 + int (calcsize [Fmt_I, Fmt_H, Fmt_H]) = int (length ''abcdefgh'') \<and>
   (\<exists>vals. unpack_from [Fmt_I, Fmt_H, Fmt_H] ''abcdefgh'' 0 = Inr vals) \<and>
   0 + int (calcsize [Fmt_I, Fmt_H, Fmt_H]) = int (length ''abcdefg'') + 1 \<and>
   unpack_from [Fmt_I, Fmt_H, Fmt_H] ''abcdefg'' 0 = Inl StructError"
  using unpack_from_bounds [of 0 "[Fmt_I, Fmt_H, Fmt_H]" "''abcdefgh''"]
    unpack_from_bounds [of 0 "[Fmt_I, Fmt_H, Fmt_H]" "''abcdefg''"]
  by (simp add: calcsize_def)

section \<open>Properties of \<^verbatim>\<open>build_packet\<close>\<close>

lemma byte_source_len: "byte_source obj \<Longrightarrow> py_len obj = Inr (length (source_bytes obj))"
  by (auto simp: byte_source_def source_bytes_def split: pyobj.splits option.splits view.splits)

lemma byte_source_buffer:
  "byte_source obj \<Longrightarrow>
   \<exists>v. get_buffer obj = Inr v \<and> view_mem v = source_bytes obj \<and>
       equiv_structure n v = (length (source_bytes obj) = n)"
  by (auto simp: byte_source_def source_bytes_def split: pyobj.splits option.splits view.splits)

lemma py_len_error: "py_len obj = Inl e \<Longrightarrow> e = ValueError \<or> e = TypeError"
  by (cases obj rule: py_len.cases) (auto split: if_splits)

subsection \<open>The frame of the copy loop\<close>

lemma mv_setslice_frame:
  "mv_setslice b lo hi val h = (r, h') \<Longrightarrow>
   length h' = length h \<and> (\<forall>a. a \<noteq> b \<longrightarrow> h' ! a = h ! a)"
  by (auto simp: mv_setslice_def Let_def split: pyobj.splits sum.splits if_splits)

lemma copy_parts_frame:
  "copy_parts b ps off h = (r, h') \<Longrightarrow>
   length h' = length h \<and> (\<forall>a. a \<noteq> b \<longrightarrow> h' ! a = h ! a)"
proof (induction ps arbitrary: off h)
  case Nil
  then show ?case by simp
next
  case (Cons p ps)
  show ?case
  proof (cases "py_len (h ! p)")
    case (Inl e)
    then show ?thesis using Cons.prems by simp
  next
    case (Inr n)
    obtain r1 h1 where s: "mv_setslice b off (off + n) (h ! p) h = (r1, h1)"
      by (cases "mv_setslice b off (off + n) (h ! p) h")
    note f1 = mv_setslice_frame [OF s]
    show ?thesis
    proof (cases r1)
      case (Inl e)
      then show ?thesis using Cons.prems Inr s f1 by simp
    next
      case (Inr u)
      then have "copy_parts b ps (off + n) h1 = (r, h')"
        using Cons.prems \<open>py_len (h ! p) = Inr n\<close> s by simp
      from Cons.IH [OF this] f1 show ?thesis by simp
    qed
  qed
qed

lemma build_packet_frame:
  "take (length h) (snd (build_packet parts h)) = h"
proof (cases "sum_len h parts 0")
  case (Inl e)
  then show ?thesis by (simp add: build_packet_def)
next
  case (Inr total)
  let ?h1 = "h @ [Bytearray (replicate total (CHR 0x00))]"
  obtain r h2 where c: "copy_parts (length h) parts 0 ?h1 = (r, h2)"
    by (cases "copy_parts (length h) parts 0 ?h1")
  from copy_parts_frame [OF c]
  have len: "length h2 = Suc (length h)" and same: "\<forall>a. a \<noteq> length h \<longrightarrow> h2 ! a = ?h1 ! a"
    by simp_all
  have "take (length h) h2 = h"
  proof (rule nth_equalityI)
    show "length (take (length h) h2) = length h" using len by simp
  next
    fix i assume "i < length (take (length h) h2)"
    then have i: "i < length h" by simp
    then show "take (length h) h2 ! i = h ! i" using same by (simp add: nth_append)
  qed
  moreover have "snd (build_packet parts h) = h2"
    using Inr c by (cases r) (simp_all add: build_packet_def)
  ultimately show ?thesis by simp
qed

subsection \<open>The copy loop on byte sources\<close>

lemma sum_len_sources:
  "\<forall>p\<in>set ps. byte_source (h ! p) \<Longrightarrow>
   sum_len h ps acc = Inr (acc + sum_list (map (\<lambda>p. length (source_bytes (h ! p))) ps))"
  by (induction ps arbitrary: acc) (auto simp: byte_source_len)

lemma mv_setslice_fits:
  assumes "h ! b = Bytearray buf" "byte_source val"
    and "off + length (source_bytes val) \<le> length buf"
  shows "mv_setslice b off (off + length (source_bytes val)) val h =
     (Inr (), h[b := Bytearray (take off buf @ source_bytes val
                                  @ drop (off + length (source_bytes val)) buf)])"
proof -
  from byte_source_buffer [OF assms(2), of "length (source_bytes val)"]
  obtain v where v: "get_buffer val = Inr v" "view_mem v = source_bytes val"
    "equiv_structure (length (source_bytes val)) v"
    by auto
  show ?thesis
    using assms(1,3) v by (simp add: mv_setslice_def Let_def min_def max_def)
qed

lemma copy_parts_sources:
  assumes "b < length h" "h ! b = Bytearray buf"
    and "\<forall>p\<in>set ps. p \<noteq> b \<and> byte_source (h ! p)"
    and "off + length (concat (map (\<lambda>p. source_bytes (h ! p)) ps)) \<le> length buf"
  shows "copy_parts b ps off h =
     (Inr (), h[b := Bytearray (take off buf @ concat (map (\<lambda>p. source_bytes (h ! p)) ps)
          @ drop (off + length (concat (map (\<lambda>p. source_bytes (h ! p)) ps))) buf)])"
  using assms
proof (induction ps arbitrary: off h buf)
  case Nil
  have "h[b := Bytearray buf] = h"
    using Nil.prems(1,2) by (metis list_update_id)
  then show ?case using Nil.prems by simp
next
  case (Cons p ps)
  let ?src = "source_bytes (h ! p)"
  let ?n = "length ?src"
  let ?rest = "concat (map (\<lambda>p. source_bytes (h ! p)) ps)"
  let ?buf' = "take off buf @ ?src @ drop (off + ?n) buf"
  let ?h' = "h[b := Bytearray ?buf']"
  have p: "p \<noteq> b" "byte_source (h ! p)" using Cons.prems(3) by simp_all
  have fit: "off + ?n + length ?rest \<le> length buf" using Cons.prems(4) by simp
  have step: "mv_setslice b off (off + ?n) (h ! p) h = (Inr (), ?h')"
    using mv_setslice_fits [OF Cons.prems(2) p(2)] fit by simp
  have same: "\<forall>q\<in>set ps. ?h' ! q = h ! q" using Cons.prems(3) by auto
  then have rest': "concat (map (\<lambda>p. source_bytes (?h' ! p)) ps) = ?rest"
    by (simp cong: map_cong)
  have len': "length ?buf' = length buf" using fit by simp
  have ih: "copy_parts b ps (off + ?n) ?h' =
     (Inr (), ?h'[b := Bytearray (take (off + ?n) ?buf' @ ?rest
          @ drop (off + ?n + length ?rest) ?buf')])"
  proof -
    have 1: "b < length ?h'" using Cons.prems(1) by simp
    have 2: "?h' ! b = Bytearray ?buf'" using Cons.prems(1) by simp
    have 3: "\<forall>q\<in>set ps. q \<noteq> b \<and> byte_source (?h' ! q)" using Cons.prems(3) by auto
    have 4: "off + ?n + length (concat (map (\<lambda>p. source_bytes (?h' ! p)) ps)) \<le> length ?buf'"
      using fit rest' len' by simp
    show ?thesis using Cons.IH [OF 1 2 3 4] rest' by simp
  qed
  have t: "take (off + ?n) ?buf' = take off buf @ ?src" using fit by simp
  have d: "drop (off + ?n + length ?rest) ?buf' = drop (off + ?n + length ?rest) buf"
    using fit by (simp add: ac_simps)
  have ih': "copy_parts b ps (off + ?n) ?h' =
     (Inr (), ?h'[b := Bytearray ((take off buf @ ?src) @ ?rest
          @ drop (off + ?n + length ?rest) buf)])"
    using ih by (simp only: t d)
  have lhs: "copy_parts b (p # ps) off h = copy_parts b ps (off + ?n) ?h'"
    using step by (simp add: byte_source_len [OF p(2)])
  have rhs: "h[b := Bytearray (take off buf @ concat (map (\<lambda>p. source_bytes (h ! p)) (p # ps))
          @ drop (off + length (concat (map (\<lambda>p. source_bytes (h ! p)) (p # ps)))) buf)]
      = ?h'[b := Bytearray ((take off buf @ ?src) @ ?rest
          @ drop (off + ?n + length ?rest) buf)]"
    by (simp add: add.assoc)
  show ?case unfolding lhs rhs by (rule ih')
qed

lemma build_packet_sources:
  assumes "\<forall>p\<in>set parts. p < length h \<and> byte_source (h ! p)"
  shows "build_packet parts h =
     (Inr (length h), h @ [Bytearray (concat (map (\<lambda>p. source_bytes (h ! p)) parts))])"
proof -
  let ?cat = "concat (map (\<lambda>p. source_bytes (h ! p)) parts)"
  let ?total = "sum_list (map (\<lambda>p. length (source_bytes (h ! p))) parts)"
  let ?zeros = "replicate ?total (CHR 0x00)"
  let ?h1 = "h @ [Bytearray ?zeros]"
  have total: "length ?cat = ?total"
    by (simp add: length_concat comp_def)
  have s: "sum_len h parts 0 = Inr ?total"
    using sum_len_sources [of parts h 0] assms by simp
  have same: "\<forall>p\<in>set parts. ?h1 ! p = h ! p" using assms by (simp add: nth_append)
  then have cat1: "concat (map (\<lambda>p. source_bytes (?h1 ! p)) parts) = ?cat"
    by (simp cong: map_cong)
  have c: "copy_parts (length h) parts 0 ?h1 =
     (Inr (), ?h1[length h := Bytearray (take 0 ?zeros
          @ concat (map (\<lambda>p. source_bytes (?h1 ! p)) parts)
          @ drop (0 + length (concat (map (\<lambda>p. source_bytes (?h1 ! p)) parts))) ?zeros)])"
  proof (rule copy_parts_sources)
    show "length h < length ?h1" by simp
    show "?h1 ! length h = Bytearray ?zeros" by simp
    show "\<forall>p\<in>set parts. p \<noteq> length h \<and> byte_source (?h1 ! p)"
      using assms same by auto
    show "0 + length (concat (map (\<lambda>p. source_bytes (?h1 ! p)) parts)) \<le> length ?zeros"
      using cat1 total by simp
  qed
  then have "copy_parts (length h) parts 0 ?h1 = (Inr (), h @ [Bytearray ?cat])"
    using cat1 total by simp
  then show ?thesis using s by (simp add: build_packet_def)
qed

subsection \<open>A length that cannot be taken\<close>

lemma sum_len_raises:
  "\<exists>p\<in>set ps. \<exists>e. py_len (h ! p) = Inl e \<Longrightarrow>
   \<exists>e. sum_len h ps acc = Inl e \<and> (e = ValueError \<or> e = TypeError)"
proof (induction ps arbitrary: acc)
  case Nil
  then show ?case by simp
next
  case (Cons p ps)
  show ?case
  proof (cases "py_len (h ! p)")
    case (Inl e)
    then show ?thesis using py_len_error [OF Inl] by simp
  next
    case (Inr n)
    then have "\<exists>p\<in>set ps. \<exists>e. py_len (h ! p) = Inl e" using Cons.prems by auto
    from Cons.IH [OF this, of "acc + n"] Inr show ?thesis by simp
  qed
qed

subsection \<open>A call that returns has copied every part\<close>

lemma get_buffer_source:
  "get_buffer obj = Inr v \<Longrightarrow> equiv_structure n v \<Longrightarrow> byte_source obj"
  by (cases obj rule: get_buffer.cases; cases v) (simp_all add: byte_source_def)

lemma mv_setslice_ok_source: "mv_setslice b lo hi val h = (Inr u, h') \<Longrightarrow> byte_source val"
  by (auto simp: mv_setslice_def Let_def split: pyobj.splits sum.splits if_splits
      intro: get_buffer_source)

lemma copy_parts_ok_sources:
  "copy_parts b ps off h = (Inr u, h') \<Longrightarrow> \<forall>p\<in>set ps. p \<noteq> b \<Longrightarrow>
   \<forall>p\<in>set ps. byte_source (h ! p)"
proof (induction ps arbitrary: off h)
  case Nil
  then show ?case by simp
next
  case (Cons p ps)
  from Cons.prems(1) obtain n where n: "py_len (h ! p) = Inr n"
    by (cases "py_len (h ! p)") simp_all
  obtain r1 h1 where s: "mv_setslice b off (off + n) (h ! p) h = (r1, h1)"
    by (cases "mv_setslice b off (off + n) (h ! p) h")
  from Cons.prems(1) n s obtain u1 where r1: "r1 = Inr u1"
    by (cases r1) simp_all
  have first: "byte_source (h ! p)"
    using mv_setslice_ok_source s r1 by blast
  have "copy_parts b ps (off + n) h1 = (Inr u, h')"
    using Cons.prems(1) n s r1 by simp
  from Cons.IH [OF this] Cons.prems(2) have "\<forall>q\<in>set ps. byte_source (h1 ! q)"
    by simp
  moreover have "\<forall>q\<in>set ps. h1 ! q = h ! q"
    using mv_setslice_frame [OF s] Cons.prems(2) by simp
  ultimately show ?case using first by simp
qed

lemma build_packet_ok_sources:
  assumes "fst (build_packet parts h) = Inr b" "\<forall>p\<in>set parts. p < length h"
  shows "\<forall>p\<in>set parts. byte_source (h ! p)"
proof -
  from assms(1) obtain total where t: "sum_len h parts 0 = Inr total"
    by (cases "sum_len h parts 0") (simp_all add: build_packet_def)
  let ?h1 = "h @ [Bytearray (replicate total (CHR 0x00))]"
  obtain r h2 where c: "copy_parts (length h) parts 0 ?h1 = (r, h2)"
    by (cases "copy_parts (length h) parts 0 ?h1")
  from assms(1) t c obtain u where "r = Inr u"
    by (cases r) (simp_all add: build_packet_def)
  then have "copy_parts (length h) parts 0 ?h1 = (Inr u, h2)" using c by simp
  moreover have "\<forall>p\<in>set parts. p \<noteq> length h" using assms(2) by auto
  ultimately have "\<forall>p\<in>set parts. byte_source (?h1 ! p)"
    by (rule copy_parts_ok_sources)
  then show ?thesis using assms(2) by (simp add: nth_append)
qed

lemma build_packet_ok_addr:
  assumes "fst (build_packet parts h) = Inr b"
  shows "b = length h \<and> length (snd (build_packet parts h)) = Suc (length h)"
proof -
  from assms obtain total where t: "sum_len h parts 0 = Inr total"
    by (cases "sum_len h parts 0") (simp_all add: build_packet_def)
  let ?h1 = "h @ [Bytearray (replicate total (CHR 0x00))]"
  obtain r h2 where c: "copy_parts (length h) parts 0 ?h1 = (r, h2)"
    by (cases "copy_parts (length h) parts 0 ?h1")
  from copy_parts_frame [OF c] have "length h2 = Suc (length h)" by simp
  then show ?thesis using assms t c by (cases r) (simp_all add: build_packet_def)
qed

subsection \<open>The claims about \<^verbatim>\<open>build_packet\<close>\<close>




text \<open>
  Claim C7. \<^verbatim>\<open>build_packet([])\<close> returns, and what it returns is a new buffer of length
  zero.
\<close>

theorem build_packet_empty:
  "build_packet [] h = (Inr (length h), h @ [Bytearray []]) \<and> length ([] :: byte list) = 0"
  by (simp add: build_packet_def)

text \<open>
  Claim C4. When \<^verbatim>\<open>len\<close> cannot be taken of some part (its \<^verbatim>\<open>__len__\<close> reports a negative
  number, it has no length, or it is a released memoryview), \<^verbatim>\<open>build_packet\<close> returns no
  buffer: it raises the exception of that \<^verbatim>\<open>len\<close>, a \<^verbatim>\<open>ValueError\<close> or a \<^verbatim>\<open>TypeError\<close>,
  while it adds up the sizes, before it allocates anything, and the store is as it was.
\<close>

theorem build_packet_bad_length:
  "(\<exists>p\<in>set parts. h ! p = Memoryview None \<or> h ! p = Other NoLen \<or>
       (\<exists>n. n < 0 \<and> h ! p = Other (Len n))) \<longrightarrow>
   (\<exists>e. build_packet parts h = (Inl e, h) \<and> (e = ValueError \<or> e = TypeError))"
proof
  assume "\<exists>p\<in>set parts. h ! p = Memoryview None \<or> h ! p = Other NoLen \<or>
       (\<exists>n. n < 0 \<and> h ! p = Other (Len n))"
  then obtain p where p: "p \<in> set parts"
    "h ! p = Memoryview None \<or> h ! p = Other NoLen \<or> (\<exists>n. n < 0 \<and> h ! p = Other (Len n))"
    by blast
  from p(2) have "\<exists>e. py_len (h ! p) = Inl e" by auto
  with p(1) have "\<exists>p\<in>set parts. \<exists>e. py_len (h ! p) = Inl e" by blast
  from sum_len_raises [OF this, of 0]
  show "\<exists>e. build_packet parts h = (Inl e, h) \<and> (e = ValueError \<or> e = TypeError)"
    by (auto simp: build_packet_def)
qed

theorem build_packet_bad_length_witness:
  "1 \<in> set [0, 1 :: nat] \<and> (- 1 :: int) < 0 \<and>
   [Bytes ''HEAD'', Other (Len (- 1))] ! 1 = Other (Len (- 1)) \<and>
   build_packet [0, 1] [Bytes ''HEAD'', Other (Len (- 1))]
     = (Inl ValueError, [Bytes ''HEAD'', Other (Len (- 1))]) \<and>
   build_packet [0] [Other NoLen] = (Inl TypeError, [Other NoLen])"
  using build_packet_bad_length [of "[0, 1]" "[Bytes ''HEAD'', Other (Len (- 1))]"]
    build_packet_bad_length [of "[0]" "[Other NoLen]"]
  by (simp add: build_packet_def)

text \<open>
  Claim C8. A call of \<^verbatim>\<open>build_packet\<close> that raises has changed no object that existed
  before the call, and it hands no buffer to its caller; a call that returns has filled
  its buffer with all the bytes of all the parts. \<^verbatim>\<open>struct.unpack_from\<close> leaves the store
  as it is, whether it raises or returns.
\<close>

theorem failure_is_atomic:
  "(fst (build_packet parts h) = Inl e \<longrightarrow>
      take (length h) (snd (build_packet parts h)) = h) \<and>
   ((\<forall>p\<in>set parts. p < length h) \<longrightarrow> fst (build_packet parts h) = Inr b \<longrightarrow>
      b = length h \<and>
      snd (build_packet parts h)
        = h @ [Bytearray (concat (map (\<lambda>p. source_bytes (h ! p)) parts))]) \<and>
   snd (struct_unpack_from fmt a offset h) = h"
proof (intro conjI impI)
  show "take (length h) (snd (build_packet parts h)) = h"
    by (rule build_packet_frame)
next
  assume v: "\<forall>p\<in>set parts. p < length h" and ok: "fst (build_packet parts h) = Inr b"
  show "b = length h" using build_packet_ok_addr [OF ok] by simp
next
  assume v: "\<forall>p\<in>set parts. p < length h" and ok: "fst (build_packet parts h) = Inr b"
  from build_packet_ok_sources [OF ok v] v
  have "\<forall>p\<in>set parts. p < length h \<and> byte_source (h ! p)" by simp
  from build_packet_sources [OF this]
  show "snd (build_packet parts h)
        = h @ [Bytearray (concat (map (\<lambda>p. source_bytes (h ! p)) parts))]"
    by simp
next
  show "snd (struct_unpack_from fmt a offset h) = h"
    by (simp add: struct_unpack_from_def split: sum.splits)
qed

theorem failure_is_atomic_witness:
  "fst (build_packet [0, 1] [Bytes ''HEAD'', Other (Len 4)]) = Inl TypeError \<and>
   snd (build_packet [0, 1] [Bytes ''HEAD'', Other (Len 4)])
     = [Bytes ''HEAD'', Other (Len 4), Bytearray (''HEAD'' @ replicate 4 (CHR 0x00))] \<and>
   take (length [Bytes ''HEAD'', Other (Len 4)])
     (snd (build_packet [0, 1] [Bytes ''HEAD'', Other (Len 4)]))
     = [Bytes ''HEAD'', Other (Len 4)] \<and>
   0 < length [Bytes ''HEAD''] \<and>
   fst (build_packet [0, 0] [Bytes ''HEAD'']) = Inr 1 \<and>
   snd (build_packet [0, 0] [Bytes ''HEAD'']) = [Bytes ''HEAD'', Bytearray ''HEADHEAD''] \<and>
   struct_unpack_from [Fmt_I, Fmt_H, Fmt_H] 0 0 [Bytearray ''abc'']
     = (Inl StructError, [Bytearray ''abc''])"
proof -
  let ?h = "[Bytes ''HEAD'', Other (Len 4)]"
  have run: "build_packet [0, 1] ?h
      = (Inl TypeError, [Bytes ''HEAD'', Other (Len 4),
           Bytearray (''HEAD'' @ replicate 4 (CHR 0x00))])"
    by (simp add: build_packet_def mv_setslice_def eval_nat_numeral)
  have ok: "fst (build_packet [0, 0] [Bytes ''HEAD'']) = Inr 1"
    by (simp add: build_packet_def mv_setslice_def)
  have parse: "fst (struct_unpack_from [Fmt_I, Fmt_H, Fmt_H] 0 0 [Bytearray ''abc''])
      = Inl StructError"
    by (simp add: struct_unpack_from_def unpack_from_def calcsize_def)
  from failure_is_atomic [of "[0, 1]" ?h TypeError 0 "[]" 0 0] run
  have 1: "take (length ?h) (snd (build_packet [0, 1] ?h)) = ?h" by simp
  from failure_is_atomic [of "[0, 0]" "[Bytes ''HEAD'']" TypeError 1
      "[Fmt_I, Fmt_H, Fmt_H]" 0 0] ok
  have 2: "snd (build_packet [0, 0] [Bytes ''HEAD'']) = [Bytes ''HEAD'', Bytearray ''HEADHEAD'']"
    by (simp add: source_bytes_def)
  from failure_is_atomic [of "[]" "[Bytearray ''abc'']" TypeError 0
      "[Fmt_I, Fmt_H, Fmt_H]" 0 0]
  have "snd (struct_unpack_from [Fmt_I, Fmt_H, Fmt_H] 0 0 [Bytearray ''abc''])
      = [Bytearray ''abc'']" by simp
  with parse have 3: "struct_unpack_from [Fmt_I, Fmt_H, Fmt_H] 0 0 [Bytearray ''abc'']
      = (Inl StructError, [Bytearray ''abc''])"
    by (simp add: prod_eq_iff)
  show ?thesis using run 1 2 3 ok by simp
qed

text \<open>
  Claim C9. Whatever the parts are, a call of \<^verbatim>\<open>build_packet\<close> leaves every object that
  existed before the call as it was, the parts among them; when the call returns, the
  store has exactly one object more, the buffer that is returned, at an address that was
  free before.
\<close>

theorem build_packet_preserves_sources:
  "take (length h) (snd (build_packet parts h)) = h \<and>
   (\<forall>p\<in>set parts. p < length h \<longrightarrow> snd (build_packet parts h) ! p = h ! p) \<and>
   (fst (build_packet parts h) = Inr b \<longrightarrow>
      b = length h \<and> length (snd (build_packet parts h)) = Suc (length h))"
proof (intro conjI ballI impI)
  show "take (length h) (snd (build_packet parts h)) = h"
    by (rule build_packet_frame)
next
  fix p assume "p < length h"
  then have "snd (build_packet parts h) ! p = take (length h) (snd (build_packet parts h)) ! p"
    by simp
  then show "snd (build_packet parts h) ! p = h ! p"
    by (simp add: build_packet_frame)
next
  assume "fst (build_packet parts h) = Inr b"
  then show "b = length h" using build_packet_ok_addr by blast
next
  assume "fst (build_packet parts h) = Inr b"
  then show "length (snd (build_packet parts h)) = Suc (length h)"
    using build_packet_ok_addr by blast
qed

theorem build_packet_preserves_sources_witness:
  "1 \<in> set [0, 1, 0 :: nat] \<and> 1 < length [Bytes ''HEAD'', Memoryview (Some (Flat ''B'' 1 ''xy''))] \<and>
   snd (build_packet [0, 1, 0] [Bytes ''HEAD'', Memoryview (Some (Flat ''B'' 1 ''xy''))]) ! 1
     = Memoryview (Some (Flat ''B'' 1 ''xy'')) \<and>
   fst (build_packet [0, 1, 0] [Bytes ''HEAD'', Memoryview (Some (Flat ''B'' 1 ''xy''))]) = Inr 2 \<and>
   length (snd (build_packet [0, 1, 0] [Bytes ''HEAD'', Memoryview (Some (Flat ''B'' 1 ''xy''))])) = 3 \<and>
   take (length [Bytes ''HEAD'', Memoryview (Some (Flat ''B'' 1 ''xy''))])
     (snd (build_packet [0, 1, 0] [Bytes ''HEAD'', Memoryview (Some (Flat ''B'' 1 ''xy''))]))
     = [Bytes ''HEAD'', Memoryview (Some (Flat ''B'' 1 ''xy''))]"
proof -
  let ?h = "[Bytes ''HEAD'', Memoryview (Some (Flat ''B'' 1 ''xy''))]"
  have ok: "fst (build_packet [0, 1, 0] ?h) = Inr 2"
    by (simp add: build_packet_def mv_setslice_def)
  from build_packet_preserves_sources [of ?h "[0, 1, 0]" 2] ok
  show ?thesis by simp
qed

end
